theory Spec2Isabelle
  imports Main "HOL-Library.Multiset" "HOL-Library.Sublist" "HOL-Library.AList" "HOL-Library.Word"
begin

section \<open>Data model of huffman\_tool.py\<close>

text \<open>
  A text is a Python \<open>str\<close>, a sequence of symbols (code points): \<open>'a list\<close>. The
  text that \<open>decompress_file\<close> writes is the sequence of the symbols it emits.
  A bit string is a Python \<open>str\<close> over the two characters "0" and "1": a \<open>bool list\<close>,
  \<open>False\<close> for "0" and \<open>True\<close> for "1", leftmost character first.
  A byte of a \<open>bytearray\<close> or of \<open>bytes\<close> is an \<open>8 word\<close>.
  A \<open>dict\<close> (the \<open>Counter\<close>, the code table, the header's \<open>freq\<close>) is an association
  list in insertion order with distinct keys; \<open>AList.update\<close> is the assignment
  \<open>d[k] = v\<close>: it overwrites in place or appends a new key at the end.
\<close>

type_synonym bits = "bool list"

type_synonym 'a code_table = "('a \<times> bits) list"

type_synonym 'a freq_table = "('a \<times> int) list"

text \<open>
  Class \<open>Node\<close>. The code builds two shapes only: \<open>Node(char, freq)\<close> with both children
  \<open>None\<close> (a leaf), and \<open>Node(None, freq)\<close> with both children assigned (the merged node of
  \<open>build_huffman_tree\<close>). The four attributes are read through \<open>char\<close>, \<open>freq\<close>,
  \<open>left\<close>, \<open>right\<close>, with \<open>None\<close> where Python holds \<open>None\<close>.
\<close>

datatype 'a node = Leaf 'a int | Merged int "'a node" "'a node"

fun char :: "'a node \<Rightarrow> 'a option" where
  "char (Leaf c f) = Some c"
| "char (Merged f l r) = None"

fun freq :: "'a node \<Rightarrow> int" where
  "freq (Leaf c f) = f"
| "freq (Merged f l r) = f"

fun left :: "'a node \<Rightarrow> 'a node option" where
  "left (Leaf c f) = None"
| "left (Merged f l r) = Some l"

fun right :: "'a node \<Rightarrow> 'a node option" where
  "right (Leaf c f) = None"
| "right (Merged f l r) = Some r"

text \<open>\<open>Node.__lt__\<close>: nodes compare by frequency alone.\<close>

definition node_lt :: "'a node \<Rightarrow> 'a node \<Rightarrow> bool" where
  "node_lt a b = (freq a < freq b)"

text \<open>
  The exceptions that escape a function of the tool, and the two warnings with which
  \<open>compress_file\<close> and \<open>decompress_file\<close> return before writing anything.
\<close>

datatype error =
    IndexError
  | KeyError
  | AttributeError
  | InputFileEmpty
  | CompressedFileEmpty

text \<open>
  The content of a compressed file: the header's two fields and the payload bytes that
  follow the header. \<open>json.dumps\<close>/\<open>json.loads\<close> and \<open>struct.pack\<close>/\<open>struct.unpack\<close> carry
  the header from \<open>compress_file\<close> to \<open>decompress_file\<close>; they keep the keys of \<open>freq\<close>
  in their order, and the header read back is the header written. The four-byte length
  prefix of the header is not part of the model.

  The counts and the padding are Python integers, as \<open>compress_file\<close> writes them. A
  header made by hand may hold other JSON values (a float such as \<open>8.0\<close>, a string,
  \<open>null\<close>); on those the source raises an uncaught \<open>TypeError\<close> (in the slice
  \<open>bit_string[:-extra_padding]\<close>, in \<open>Node.__lt__\<close>). Such headers are not values of
  this type, and nothing below speaks about them.
\<close>

record 'a container =
  header_freq :: "'a freq_table"
  header_padding :: int
  payload :: "8 word list"

section \<open>Block 2: frequency table and Huffman tree\<close>

text \<open>
  \<open>Counter(text)\<close> runs \<open>mapping[elem] = mapping.get(elem, 0) + 1\<close> over the text from left
  to right, so the keys stand in order of first occurrence.
\<close>

definition count_elem :: "'a freq_table \<Rightarrow> 'a \<Rightarrow> 'a freq_table" where
  "count_elem mapping elem =
     AList.update elem ((case map_of mapping elem of None \<Rightarrow> 0 | Some n \<Rightarrow> n) + 1) mapping"

definition build_frequency_table :: "'a list \<Rightarrow> 'a freq_table" where
  "build_frequency_table text = foldl count_elem [] text"

subsection \<open>The binary heap of module heapq\<close>

text \<open>
  The list-based binary heap of the standard library, after \<open>Lib/heapq.py\<close>; the only
  comparison it makes is \<open>Node.__lt__\<close>. Every index read below lies inside the list:
  a parent position is smaller than \<open>pos\<close>, a child position is checked against
  \<open>endpos\<close>.

  \<open>heapq._siftdown\<close>: the loop carries \<open>newitem\<close>, moves parents down while \<open>newitem\<close> is
  smaller, and stores \<open>newitem\<close> at the final position.
\<close>

function siftdown_loop :: "'a node list \<Rightarrow> 'a node \<Rightarrow> nat \<Rightarrow> nat \<Rightarrow> 'a node list" where
  "siftdown_loop heap newitem startpos pos =
     (if pos > startpos then
        (let parentpos = (pos - 1) div 2;
             parent = heap ! parentpos
         in if node_lt newitem parent
            then siftdown_loop (heap[pos := parent]) newitem startpos parentpos
            else heap[pos := newitem])
      else heap[pos := newitem])"
  by pat_completeness auto
termination
  by (relation "measure (\<lambda>(heap, newitem, startpos, pos). pos)") auto

definition siftdown :: "'a node list \<Rightarrow> nat \<Rightarrow> nat \<Rightarrow> 'a node list" where
  "siftdown heap startpos pos = siftdown_loop heap (heap ! pos) startpos pos"

text \<open>
  \<open>heapq._siftup\<close>: the loop bubbles the smaller child up until a leaf position is
  reached (the right child is taken unless the left one is strictly smaller); the
  new item is stored there and sifted down again towards \<open>startpos\<close>.
\<close>

function siftup_loop :: "'a node list \<Rightarrow> nat \<Rightarrow> nat \<Rightarrow> 'a node list \<times> nat" where
  "siftup_loop heap endpos pos =
     (let childpos = 2 * pos + 1 in
      if childpos < endpos then
        (let rightpos = childpos + 1;
             childpos = (if rightpos < endpos \<and> \<not> node_lt (heap ! childpos) (heap ! rightpos)
                         then rightpos else childpos)
         in siftup_loop (heap[pos := heap ! childpos]) endpos childpos)
      else (heap, pos))"
  by pat_completeness auto
termination
  by (relation "measure (\<lambda>(heap, endpos, pos). endpos - pos)") (auto simp: Let_def)

definition siftup :: "'a node list \<Rightarrow> nat \<Rightarrow> 'a node list" where
  "siftup heap pos =
     (let endpos = length heap;
          startpos = pos;
          newitem = heap ! pos;
          (heap, pos) = siftup_loop heap endpos pos
      in siftdown (heap[pos := newitem]) startpos pos)"

definition heappush :: "'a node list \<Rightarrow> 'a node \<Rightarrow> 'a node list" where
  "heappush heap item = siftdown (heap @ [item]) 0 (length (heap @ [item]) - 1)"

text \<open>\<open>heapq.heappop\<close>: \<open>heap.pop()\<close> raises \<open>IndexError\<close> on the empty list.\<close>

definition heappop :: "'a node list \<Rightarrow> error + ('a node \<times> 'a node list)" where
  "heappop heap =
     (if heap = [] then Inl IndexError
      else (let lastelt = last heap;
                heap = butlast heap
            in if heap \<noteq> []
               then (let returnitem = heap ! 0;
                         heap = heap[0 := lastelt]
                     in Inr (returnitem, siftup heap 0))
               else Inr (lastelt, heap)))"

text \<open>\<open>heapq.heapify\<close>: \<open>for i in reversed(range(n//2)): _siftup(x, i)\<close>.\<close>

definition heapify :: "'a node list \<Rightarrow> 'a node list" where
  "heapify x = fold (\<lambda>i x. siftup x i) (rev [0 ..< length x div 2]) x"


subsection \<open>The heap operations keep the number of nodes\<close>

declare siftdown_loop.simps [simp del]

declare siftup_loop.simps [simp del]

lemma length_siftdown_loop [simp]:
  "length (siftdown_loop heap newitem startpos pos) = length heap"
proof (induction heap newitem startpos pos rule: siftdown_loop.induct)
  case (1 heap newitem startpos pos)
  then show ?case
    by (subst siftdown_loop.simps) (simp add: Let_def)
qed

lemma length_siftdown [simp]: "length (siftdown heap startpos pos) = length heap"
  by (simp add: siftdown_def)

lemma length_siftup_loop [simp]: "length (fst (siftup_loop heap endpos pos)) = length heap"
proof (induction heap endpos pos rule: siftup_loop.induct)
  case (1 heap endpos pos)
  then show ?case
    by (subst siftup_loop.simps) (simp add: Let_def)
qed

lemma length_siftup [simp]: "length (siftup heap pos) = length heap"
  by (simp add: siftup_def Let_def split: prod.splits)
    (metis fst_conv length_siftup_loop)

lemma length_heappush [simp]: "length (heappush heap item) = Suc (length heap)"
  by (simp add: heappush_def)

lemma length_heappop:
  "heappop heap = Inr (item, heap') \<Longrightarrow> Suc (length heap') = length heap"
  by (cases heap rule: rev_cases) (auto simp: heappop_def Let_def split: if_splits)

lemma length_heapify [simp]: "length (heapify x) = length x"
proof -
  have "length (fold (\<lambda>i x. siftup x i) is x) = length x" for "is"
    by (induction "is" arbitrary: x) simp_all
  then show ?thesis by (simp add: heapify_def)
qed

subsection \<open>build\_huffman\_tree\<close>

text \<open>
  The \<open>while len(heap) > 1\<close> loop: two pops, one merged node, one push. An \<open>IndexError\<close>
  of \<open>heappop\<close> would leave the loop as an exception.
\<close>

function merge_loop :: "'a node list \<Rightarrow> error + 'a node list" where
  "merge_loop heap =
     (if length heap > 1 then
        (case heappop heap of
           Inl e \<Rightarrow> Inl e
         | Inr (left_node, heap1) \<Rightarrow>
             (case heappop heap1 of
                Inl e \<Rightarrow> Inl e
              | Inr (right_node, heap2) \<Rightarrow>
                  (let merged = Merged (freq left_node + freq right_node) left_node right_node
                   in merge_loop (heappush heap2 merged))))
      else Inr heap)"
  by pat_completeness auto
termination
proof (relation "measure length")
  show "wf (measure length)" by simp
next
  fix heap :: "'a node list" and x2 l heap1 x2a r heap2 merged
  assume "heappop heap = Inr x2" "(l, heap1) = x2"
    "heappop heap1 = Inr x2a" "(r, heap2) = x2a"
  then have "Suc (length heap1) = length heap" "Suc (length heap2) = length heap1"
    by (auto dest: length_heappop)
  then show "(heappush heap2 merged, heap) \<in> measure length"
    by simp
qed

declare merge_loop.simps [simp del]

text \<open>
  \<open>build_huffman_tree\<close>: one leaf per item of the table, in the table's order; the result is
  \<open>heap[0]\<close>, or \<open>None\<close> for an empty table.
\<close>

definition build_huffman_tree :: "'a freq_table \<Rightarrow> error + 'a node option" where
  "build_huffman_tree freq_table =
     (let heap = map (\<lambda>(c, f). Leaf c f) freq_table;
          heap = heapify heap
      in case merge_loop heap of
           Inl e \<Rightarrow> Inl e
         | Inr heap \<Rightarrow> Inr (if heap \<noteq> [] then Some (heap ! 0) else None))"

section \<open>Block 3: code table\<close>

text \<open>
  \<open>generate_codes\<close> threads the one shared \<open>code_table\<close> dict through the recursion, left
  subtree first. \<open>current_code or "0"\<close> is "0" exactly when \<open>current_code\<close> is empty.
\<close>

fun generate_codes :: "'a node option \<Rightarrow> bits \<Rightarrow> 'a code_table \<Rightarrow> 'a code_table" where
  "generate_codes None current_code code_table = code_table"
| "generate_codes (Some (Leaf c f)) current_code code_table =
     AList.update c (if current_code = [] then [False] else current_code) code_table"
| "generate_codes (Some (Merged f l r)) current_code code_table =
     generate_codes (Some r) (current_code @ [True])
       (generate_codes (Some l) (current_code @ [False]) code_table)"

section \<open>Block 4: encoding and bit packing\<close>

text \<open>\<open>encode_text\<close>: \<open>code_table[char]\<close> raises \<open>KeyError\<close> for a missing symbol.\<close>

fun encode_text :: "'a list \<Rightarrow> 'a code_table \<Rightarrow> error + bits" where
  "encode_text [] code_table = Inr []"
| "encode_text (c # cs) code_table =
     (case map_of code_table c of
        None \<Rightarrow> Inl KeyError
      | Some code \<Rightarrow>
          (case encode_text cs code_table of
             Inl e \<Rightarrow> Inl e
           | Inr rest \<Rightarrow> Inr (code @ rest)))"

definition pad_encoded_text :: "bits \<Rightarrow> bits \<times> nat" where
  "pad_encoded_text encoded_text =
     (let extra_padding = 8 - length encoded_text mod 8;
          extra_padding = (if extra_padding = 8 then 0 else extra_padding);
          padded_encoded_text = encoded_text @ replicate extra_padding False
      in (padded_encoded_text, extra_padding))"

text \<open>\<open>int(byte, 2)\<close> on a string of binary digits, most significant digit first.\<close>

definition int2 :: "bits \<Rightarrow> nat" where
  "int2 byte = foldl (\<lambda>n b. 2 * n + (if b then 1 else 0)) 0 byte"

text \<open>
  \<open>get_byte_array\<close>: \<open>i\<close> runs over \<open>range(0, len(padded_encoded_text), 8)\<close> and
  \<open>padded_encoded_text[i:i+8]\<close> is the slice of at most eight bits at \<open>i\<close>. A slice of
  at most eight bits is a number below 256, which \<open>bytearray.append\<close> accepts.
\<close>

definition get_byte_array :: "bits \<Rightarrow> 8 word list" where
  "get_byte_array padded_encoded_text =
     map (\<lambda>k. let i = 8 * k;
                  byte = take 8 (drop i padded_encoded_text)
              in word_of_nat (int2 byte))
       [0 ..< (length padded_encoded_text + 7) div 8]"

section \<open>Block 5: compress\_file\<close>

text \<open>
  \<open>compress_file\<close> from the text read to the content written. \<open>Inl InputFileEmpty\<close> is the
  return after the warning "Input file is empty!", before any output file is opened.
\<close>

definition compress_file :: "'a list \<Rightarrow> error + 'a container" where
  "compress_file text =
     (if text = [] then Inl InputFileEmpty
      else
        (let freq_table = build_frequency_table text in
         case build_huffman_tree freq_table of
           Inl e \<Rightarrow> Inl e
         | Inr huffman_tree \<Rightarrow>
             (let code_table = generate_codes huffman_tree [] [] in
              case encode_text text code_table of
                Inl e \<Rightarrow> Inl e
              | Inr encoded_text \<Rightarrow>
                  (let (padded_encoded_text, extra_padding) = pad_encoded_text encoded_text;
                       byte_array = get_byte_array padded_encoded_text
                   in Inr \<lparr>header_freq = freq_table,
                           header_padding = int extra_padding,
                           payload = byte_array\<rparr>))))"

section \<open>Block 6: decompress\_file\<close>

text \<open>\<open>bin(byte)[2:]\<close>: the binary digits of a number, without leading zeros ("0" for 0).\<close>

function bin_digits :: "nat \<Rightarrow> bits" where
  "bin_digits n = (if n < 2 then [n = 1] else bin_digits (n div 2) @ [odd n])"
  by pat_completeness auto
termination
  by (relation "measure id") auto

declare bin_digits.simps [simp del]

definition rjust :: "nat \<Rightarrow> 'b \<Rightarrow> 'b list \<Rightarrow> 'b list" where
  "rjust width fillchar s = replicate (width - length s) fillchar @ s"

definition bit_string_of :: "8 word list \<Rightarrow> bits" where
  "bit_string_of compressed_data =
     concat (map (\<lambda>byte. rjust 8 False (bin_digits (unat byte))) compressed_data)"

text \<open>
  \<open>if extra_padding > 0: bit_string = bit_string[:-extra_padding]\<close>. A slice that would
  start before the string is the empty string.
\<close>

definition remove_padding :: "bits \<Rightarrow> int \<Rightarrow> bits" where
  "remove_padding bit_string extra_padding =
     (if extra_padding > 0
      then take (nat (int (length bit_string) - extra_padding)) bit_string
      else bit_string)"

text \<open>
  The decoding loop. \<open>current_node\<close> may hold \<open>None\<close>: the tree of an empty table, or the
  child of a leaf. Reading \<open>.left\<close>, \<open>.right\<close> or \<open>.char\<close> of \<open>None\<close> raises
  \<open>AttributeError\<close>, which nothing in \<open>decompress_file\<close> catches.
\<close>

fun decode_loop ::
  "'a node option \<Rightarrow> 'a node option \<Rightarrow> bits \<Rightarrow> 'a list \<Rightarrow> error + 'a list" where
  "decode_loop huffman_tree current_node [] decoded_text = Inr decoded_text"
| "decode_loop huffman_tree current_node (b # bit_string) decoded_text =
     (case current_node of
        None \<Rightarrow> Inl AttributeError
      | Some node \<Rightarrow>
          (case (if \<not> b then left node else right node) of
             None \<Rightarrow> Inl AttributeError
           | Some current_node \<Rightarrow>
               (case char current_node of
                  Some c \<Rightarrow> decode_loop huffman_tree huffman_tree bit_string (decoded_text @ [c])
                | None \<Rightarrow> decode_loop huffman_tree (Some current_node) bit_string decoded_text)))"

text \<open>
  \<open>decompress_file\<close> from the content read to the text written. \<open>Inl CompressedFileEmpty\<close>
  is the return after the warning "Compressed file is empty!"; \<open>Inr text\<close> is the text
  written before "File decompressed successfully!".
\<close>

definition decompress_file :: "'a container \<Rightarrow> error + 'a list" where
  "decompress_file file =
     (let freq_table = header_freq file;
          extra_padding = header_padding file;
          compressed_data = payload file
      in if compressed_data = [] then Inl CompressedFileEmpty
         else
           (case build_huffman_tree freq_table of
              Inl e \<Rightarrow> Inl e
            | Inr huffman_tree \<Rightarrow>
                (let bit_string = bit_string_of compressed_data;
                     bit_string = remove_padding bit_string extra_padding
                 in decode_loop huffman_tree huffman_tree bit_string [])))"

section \<open>Notions used to state the properties\<close>

text \<open>The symbols at the leaves of a tree, from left to right.\<close>

fun symbols :: "'a node \<Rightarrow> 'a list" where
  "symbols (Leaf c f) = [c]"
| "symbols (Merged f l r) = symbols l @ symbols r"

text \<open>The symbols at the leaves of all trees of a heap, as a multiset.\<close>

definition heap_symbols :: "'a node list \<Rightarrow> 'a multiset" where
  "heap_symbols heap = sum_list (map (\<lambda>t. mset (symbols t)) heap)"

text \<open>The symbols of a text in order of first occurrence.\<close>

definition first_occurrences :: "'a list \<Rightarrow> 'a list" where
  "first_occurrences text = rev (remdups (rev text))"

text \<open>
  The path from a node down to each of its leaves, left to right: \<open>False\<close> for a step to
  the left child, \<open>True\<close> for a step to the right child.
\<close>

fun paths :: "'a node \<Rightarrow> 'a code_table" where
  "paths (Leaf c f) = [(c, [])]"
| "paths (Merged f l r) =
     map (\<lambda>(c, p). (c, False # p)) (paths l) @ map (\<lambda>(c, p). (c, True # p)) (paths r)"

text \<open>A code table is prefix-free: no code is a prefix of the code of another symbol.\<close>

definition prefix_free :: "'a code_table \<Rightarrow> bool" where
  "prefix_free code_table =
     (\<forall>(a, ca) \<in> set code_table. \<forall>(b, cb) \<in> set code_table. a \<noteq> b \<longrightarrow> \<not> prefix ca cb)"

section \<open>The heap operations permute the nodes\<close>

lemma mset_update_swap:
  assumes "i < length xs" "j < length xs"
  shows "mset (xs[i := xs ! j, j := v]) = mset (xs[i := v])"
proof (cases "i = j")
  case True
  then show ?thesis by simp
next
  case False
  have "mset ((xs[i := v])[j := (xs[i := v]) ! i, i := (xs[i := v]) ! j]) = mset (xs[i := v])"
    using assms by (intro mset_swap) simp_all
  moreover have "(xs[i := v])[j := (xs[i := v]) ! i, i := (xs[i := v]) ! j] = xs[i := xs ! j, j := v]"
    using assms False by (simp add: list_update_swap [of i j])
  ultimately show ?thesis by simp
qed

lemma mset_siftdown_loop:
  "pos < length heap \<Longrightarrow>
   mset (siftdown_loop heap newitem startpos pos) = mset (heap[pos := newitem])"
proof (induction heap newitem startpos pos rule: siftdown_loop.induct)
  case (1 heap newitem startpos pos)
  show ?case
  proof (cases "pos > startpos \<and> node_lt newitem (heap ! ((pos - 1) div 2))")
    case True
    define parentpos where "parentpos = (pos - 1) div 2"
    have pp: "parentpos < length heap" using "1.prems" by (simp add: parentpos_def)
    have "siftdown_loop heap newitem startpos pos
        = siftdown_loop (heap[pos := heap ! parentpos]) newitem startpos parentpos"
      using True by (subst siftdown_loop.simps) (simp add: parentpos_def Let_def)
    also have "mset \<dots> = mset ((heap[pos := heap ! parentpos])[parentpos := newitem])"
      using True pp "1.IH" [of parentpos "heap ! parentpos"] by (simp add: parentpos_def)
    also have "\<dots> = mset (heap[pos := newitem])"
      using "1.prems" pp by (rule mset_update_swap)
    finally show ?thesis .
  next
    case False
    then show ?thesis
      by (subst siftdown_loop.simps) (auto simp: Let_def)
  qed
qed

lemma mset_siftdown: "pos < length heap \<Longrightarrow> mset (siftdown heap startpos pos) = mset heap"
  by (simp add: siftdown_def mset_siftdown_loop)

lemma siftup_loop_invariant:
  assumes "pos < length heap" "endpos = length heap" "siftup_loop heap endpos pos = (heap', pos')"
  shows "pos' < length heap \<and> length heap' = length heap
         \<and> mset (heap'[pos' := x]) = mset (heap[pos := x])"
  using assms
proof (induction heap endpos pos arbitrary: heap' pos' rule: siftup_loop.induct)
  case (1 heap endpos pos)
  show ?case
  proof (cases "2 * pos + 1 < endpos")
    case True
    define childpos where "childpos =
      (if 2 * pos + 1 + 1 < endpos \<and> \<not> node_lt (heap ! (2 * pos + 1)) (heap ! (2 * pos + 1 + 1))
       then 2 * pos + 1 + 1 else 2 * pos + 1)"
    have cp: "childpos < length heap" using True "1.prems" by (simp add: childpos_def)
    have step: "siftup_loop heap endpos pos = siftup_loop (heap[pos := heap ! childpos]) endpos childpos"
      using True by (subst siftup_loop.simps) (simp add: childpos_def Let_def)
    then have rec: "siftup_loop (heap[pos := heap ! childpos]) endpos childpos = (heap', pos')"
      using "1.prems" by simp
    have "pos' < length (heap[pos := heap ! childpos])
        \<and> length heap' = length (heap[pos := heap ! childpos])
        \<and> mset (heap'[pos' := x]) = mset ((heap[pos := heap ! childpos])[childpos := x])"
      using "1.IH" [OF refl True refl refl, of heap' pos'] rec cp "1.prems"
      unfolding childpos_def by simp
    moreover have "mset ((heap[pos := heap ! childpos])[childpos := x]) = mset (heap[pos := x])"
      using "1.prems" cp by (intro mset_update_swap)
    ultimately show ?thesis by simp
  next
    case False
    then have "siftup_loop heap endpos pos = (heap, pos)"
      by (subst siftup_loop.simps) (simp add: Let_def)
    then show ?thesis using "1.prems" by simp
  qed
qed

lemma mset_siftup: "pos < length heap \<Longrightarrow> mset (siftup heap pos) = mset heap"
proof -
  assume pos: "pos < length heap"
  obtain heap' pos' where l: "siftup_loop heap (length heap) pos = (heap', pos')"
    by (cases "siftup_loop heap (length heap) pos")
  have inv: "pos' < length heap" "length heap' = length heap"
    "mset (heap'[pos' := heap ! pos]) = mset (heap[pos := heap ! pos])"
    using siftup_loop_invariant [OF pos refl l, of "heap ! pos"] by simp_all
  have "siftup heap pos = siftdown (heap'[pos' := heap ! pos]) pos pos'"
    by (simp add: siftup_def l Let_def)
  then show ?thesis using inv by (simp add: mset_siftdown)
qed

lemma mset_heappush: "mset (heappush heap item) = add_mset item (mset heap)"
  by (simp add: heappush_def mset_siftdown)

lemma heappop_nonempty:
  assumes "heap \<noteq> []"
  shows "\<exists>item heap'. heappop heap = Inr (item, heap') \<and> add_mset item (mset heap') = mset heap"
proof -
  obtain ys y where heap: "heap = ys @ [y]"
    using assms by (cases heap rule: rev_cases) auto
  show ?thesis
  proof (cases ys)
    case Nil
    then show ?thesis by (simp add: heap heappop_def)
  next
    case (Cons z zs)
    then have "heappop heap = Inr (z, siftup (y # zs) 0)"
      by (simp add: heap heappop_def Let_def)
    moreover have "mset (siftup (y # zs) 0) = mset (y # zs)"
      by (rule mset_siftup) simp
    ultimately show ?thesis by (simp add: heap Cons)
  qed
qed

lemma mset_heapify: "mset (heapify x) = mset x"
proof -
  have "\<forall>i\<in>set is. i < length x \<Longrightarrow> mset (fold (\<lambda>i x. siftup x i) is x) = mset x" for "is"
  proof (induction "is" arbitrary: x)
    case Nil
    then show ?case by simp
  next
    case (Cons i "is")
    then show ?case by (simp add: mset_siftup)
  qed
  moreover have "\<forall>i\<in>set (rev [0 ..< length x div 2]). i < length x"
  proof
    fix i assume "i \<in> set (rev [0 ..< length x div 2])"
    then have "i < length x div 2" by simp
    also have "\<dots> \<le> length x" by simp
    finally show "i < length x" .
  qed
  ultimately show ?thesis unfolding heapify_def by blast
qed

section \<open>The tree of build\_huffman\_tree\<close>

lemma heap_symbols_mset:
  "heap_symbols heap = sum_mset (image_mset (\<lambda>t. mset (symbols t)) (mset heap))"
  unfolding heap_symbols_def by (induction heap) simp_all

lemma heap_symbols_cong: "mset h = mset h' \<Longrightarrow> heap_symbols h = heap_symbols h'"
  by (simp add: heap_symbols_mset)

lemma heap_symbols_add:
  "add_mset t (mset h') = mset h \<Longrightarrow> heap_symbols h = mset (symbols t) + heap_symbols h'"
  by (simp add: heap_symbols_mset flip: HOL.eq_commute [of "mset h"])

lemma merge_loop_result:
  "\<exists>h. merge_loop heap = Inr h \<and> heap_symbols h = heap_symbols heap
       \<and> length h = (if heap = [] then 0 else 1)"
proof (induction heap rule: merge_loop.induct)
  case (1 heap)
  show ?case
  proof (cases "length heap > 1")
    case True
    then have "heap \<noteq> []" by auto
    then obtain l heap1 where p1: "heappop heap = Inr (l, heap1)"
      and m1: "add_mset l (mset heap1) = mset heap"
      using heappop_nonempty by blast
    have "Suc (length heap1) = length heap" using p1 by (rule length_heappop)
    then have "heap1 \<noteq> []" using True by auto
    then obtain r heap2 where p2: "heappop heap1 = Inr (r, heap2)"
      and m2: "add_mset r (mset heap2) = mset heap1"
      using heappop_nonempty by blast
    define merged where "merged = Merged (freq l + freq r) l r"
    define heap3 where "heap3 = heappush heap2 merged"
    have step: "merge_loop heap = merge_loop heap3"
      using True p1 p2 by (subst merge_loop.simps) (simp add: merged_def heap3_def)
    have ne: "heap3 \<noteq> []"
      using length_heappush [of heap2 merged] unfolding heap3_def by (metis length_0_conv nat.distinct(1))
    have "\<exists>h. merge_loop heap3 = Inr h \<and> heap_symbols h = heap_symbols heap3
        \<and> length h = (if heap3 = [] then 0 else 1)"
      unfolding heap3_def merged_def
      by (rule "1.IH" [OF True p1 refl p2 refl refl])
    then obtain h where h: "merge_loop heap3 = Inr h" "heap_symbols h = heap_symbols heap3"
      "length h = 1" using ne by auto
    have "heap_symbols heap3 = mset (symbols merged) + heap_symbols heap2"
      unfolding heap3_def by (rule heap_symbols_add) (simp add: mset_heappush)
    also have "\<dots> = mset (symbols l) + (mset (symbols r) + heap_symbols heap2)"
      by (simp add: merged_def)
    also have "\<dots> = mset (symbols l) + heap_symbols heap1"
      using heap_symbols_add [OF m2] by simp
    also have "\<dots> = heap_symbols heap"
      using heap_symbols_add [OF m1] by simp
    finally show ?thesis using h step \<open>heap \<noteq> []\<close> by simp
  next
    case False
    then have "merge_loop heap = Inr heap"
      by (subst merge_loop.simps) simp
    moreover have "length heap = (if heap = [] then 0 else 1)"
      using False by (cases heap) auto
    ultimately show ?thesis by simp
  qed
qed

lemma heap_symbols_leaves:
  "heap_symbols (map (\<lambda>(c, f). Leaf c f) freq_table) = mset (map fst freq_table)"
  unfolding heap_symbols_def by (induction freq_table) auto


lemma build_huffman_tree_nonempty:
  assumes "freq_table \<noteq> []"
  shows "\<exists>tree. build_huffman_tree freq_table = Inr (Some tree)
          \<and> mset (symbols tree) = mset (map fst freq_table)"
proof -
  define heap where "heap = heapify (map (\<lambda>(c, f). Leaf c f) freq_table)"
  have ne: "heap \<noteq> []" using assms length_heapify [of "map (\<lambda>(c, f). Leaf c f) freq_table"]
    unfolding heap_def by (metis length_0_conv length_map)
  have hs: "heap_symbols heap = mset (map fst freq_table)"
    unfolding heap_def using heap_symbols_cong [OF mset_heapify] heap_symbols_leaves by metis
  obtain h where h: "merge_loop heap = Inr h" "heap_symbols h = heap_symbols heap" "length h = 1"
    using merge_loop_result [of heap] ne by auto
  then obtain tree where t: "h = [tree]" by (cases h) auto
  have "build_huffman_tree freq_table = Inr (Some tree)"
    using h t by (simp add: build_huffman_tree_def heap_def [symmetric])
  moreover have "mset (symbols tree) = mset (map fst freq_table)"
    using h hs t by (simp add: heap_symbols_def)
  ultimately show ?thesis by blast
qed

lemma build_huffman_tree_single: "build_huffman_tree [(c, f)] = Inr (Some (Leaf c f))"
  by (simp add: build_huffman_tree_def heapify_def merge_loop.simps)


section \<open>The frequency table of build\_frequency\_table\<close>

lemma first_occurrences_snoc:
  "first_occurrences (t @ [e]) = (if e \<in> set t then first_occurrences t else first_occurrences t @ [e])"
  by (simp add: first_occurrences_def)

lemma set_first_occurrences [simp]: "set (first_occurrences t) = set t"
  by (simp add: first_occurrences_def)

lemma distinct_first_occurrences [simp]: "distinct (first_occurrences t)"
  by (simp add: first_occurrences_def)

lemma update_counted:
  "distinct ks \<Longrightarrow>
   AList.update e v (map (\<lambda>x. (x, g x)) ks) =
     (if e \<in> set ks then map (\<lambda>x. (x, if x = e then v else g x)) ks
      else map (\<lambda>x. (x, g x)) ks @ [(e, v)])"
  by (induction ks) auto

lemma map_of_counted:
  "map_of (map (\<lambda>x. (x, g x)) ks) e = (if e \<in> set ks then Some (g e) else None)"
  by (induction ks) auto

lemma count_list_absent: "e \<notin> set t \<Longrightarrow> count_list t e = 0"
  by (induction t) auto

lemma build_frequency_table_eq:
  "build_frequency_table t = map (\<lambda>x. (x, int (count_list t x))) (first_occurrences t)"
proof (induction t rule: rev_induct)
  case Nil
  then show ?case by (simp add: build_frequency_table_def first_occurrences_def)
next
  case (snoc e t)
  have "build_frequency_table (t @ [e]) = count_elem (build_frequency_table t) e"
    by (simp add: build_frequency_table_def)
  also have "\<dots> = count_elem (map (\<lambda>x. (x, int (count_list t x))) (first_occurrences t)) e"
    by (simp add: snoc.IH)
  also have "\<dots> = map (\<lambda>x. (x, int (count_list (t @ [e]) x))) (first_occurrences (t @ [e]))"
    unfolding count_elem_def map_of_counted first_occurrences_snoc
    by (auto simp: count_list_absent update_counted)
  finally show ?case .
qed

lemma build_frequency_table_keys:
  "map fst (build_frequency_table t) = first_occurrences t"
  by (simp add: build_frequency_table_eq comp_def)

lemma build_frequency_table_replicate:
  "0 < n \<Longrightarrow> build_frequency_table (replicate n c) = [(c, int n)]"
proof -
  assume "0 < n"
  then obtain m where n: "n = Suc m" by (cases n) auto
  have "remdups (replicate (Suc m) c) = [c]"
    by (induction m) auto
  then have "remdups (replicate n c) = [c]" by (simp add: n)
  then have "first_occurrences (replicate n c) = [c]"
    by (simp add: first_occurrences_def)
  moreover have "count_list (replicate k c) c = k" for k
    by (induction k) auto
  ultimately show ?thesis by (simp add: build_frequency_table_eq)
qed

section \<open>The code table of generate\_codes\<close>

lemma map_fst_paths [simp]: "map fst (paths t) = symbols t"
  by (induction t) (auto simp: comp_def case_prod_beta)

lemma generate_codes_fold:
  "generate_codes (Some t) code tbl =
     fold (\<lambda>(c, p). AList.update c (if code @ p = [] then [False] else code @ p)) (paths t) tbl"
proof (induction t arbitrary: code tbl)
  case (Leaf c f)
  then show ?case by simp
next
  case (Merged f l r)
  then show ?case
    by (simp add: fold_map comp_def case_prod_beta)
qed

lemma fold_update_fresh:
  "distinct (map fst (tbl @ kvs)) \<Longrightarrow>
   fold (\<lambda>(k, v). AList.update k v) kvs tbl = tbl @ kvs"
proof (induction kvs arbitrary: tbl)
  case Nil
  then show ?case by simp
next
  case (Cons kv kvs)
  obtain k v where kv: "kv = (k, v)" by (cases kv)
  have "k \<notin> fst ` set tbl" using Cons.prems by (auto simp: kv)
  then have "AList.update k v tbl = tbl @ [(k, v)]"
    by (induction tbl) auto
  moreover have "distinct (map fst ((tbl @ [(k, v)]) @ kvs))"
    using Cons.prems by (simp add: kv)
  ultimately show ?case using Cons.IH [of "tbl @ [(k, v)]"] by (simp add: kv)
qed

lemma generate_codes_paths:
  assumes "distinct (symbols t)"
  shows "generate_codes (Some t) [] [] =
           map (\<lambda>(c, p). (c, if p = [] then [False] else p)) (paths t)"
proof -
  let ?kvs = "map (\<lambda>(c, p). (c, if p = [] then [False] else p)) (paths t)"
  have "map fst ?kvs = symbols t"
    using map_fst_paths [of t] by (simp add: comp_def case_prod_beta)
  then have "distinct (map fst ([] @ ?kvs))" using assms by simp
  then have "fold (\<lambda>(k, v). AList.update k v) ?kvs [] = [] @ ?kvs"
    by (rule fold_update_fresh)
  moreover have "generate_codes (Some t) [] [] = fold (\<lambda>(k, v). AList.update k v) ?kvs []"
    by (simp add: generate_codes_fold fold_map comp_def case_prod_unfold cong: if_cong)
  ultimately show ?thesis by simp
qed

lemma paths_Merged_nonempty: "(c, p) \<in> set (paths (Merged f l r)) \<Longrightarrow> p \<noteq> []"
  by auto

lemma generate_codes_Merged:
  assumes "distinct (symbols (Merged f l r))"
  shows "generate_codes (Some (Merged f l r)) [] [] = paths (Merged f l r)"
proof -
  have "map (\<lambda>(c, p). (c, if p = [] then [False] else p)) (paths (Merged f l r))
      = map (\<lambda>x. x) (paths (Merged f l r))"
    by (rule map_cong) (auto simp del: paths.simps dest: paths_Merged_nonempty)
  then show ?thesis using generate_codes_paths [OF assms] by simp
qed

lemma paths_symbol: "(a, p) \<in> set (paths t) \<Longrightarrow> a \<in> set (symbols t)"
  using map_fst_paths [of t] by (metis fst_conv image_eqI set_map)

lemma paths_prefix_free:
  "distinct (symbols t) \<Longrightarrow> (a, pa) \<in> set (paths t) \<Longrightarrow> (b, pb) \<in> set (paths t) \<Longrightarrow>
   a \<noteq> b \<Longrightarrow> \<not> prefix pa pb"
proof (induction t arbitrary: pa pb)
  case (Leaf c f)
  then show ?case by simp
next
  case (Merged f l r)
  from Merged.prems(2) consider
    (al) qa where "pa = False # qa" "(a, qa) \<in> set (paths l)"
    | (ar) qa where "pa = True # qa" "(a, qa) \<in> set (paths r)"
    by auto
  then show ?case
  proof cases
    case al
    from Merged.prems(3) consider
      (bl) qb where "pb = False # qb" "(b, qb) \<in> set (paths l)"
      | (br) qb where "pb = True # qb" "(b, qb) \<in> set (paths r)"
      by auto
    then show ?thesis
    proof cases
      case bl
      then show ?thesis using al Merged.IH(1) [of qa qb] Merged.prems by simp
    next
      case br
      then show ?thesis using al by simp
    qed
  next
    case ar
    from Merged.prems(3) consider
      (bl) qb where "pb = False # qb" "(b, qb) \<in> set (paths l)"
      | (br) qb where "pb = True # qb" "(b, qb) \<in> set (paths r)"
      by auto
    then show ?thesis
    proof cases
      case bl
      then show ?thesis using ar by simp
    next
      case br
      then show ?thesis using ar Merged.IH(2) [of qa qb] Merged.prems by simp
    qed
  qed
qed

lemma generate_codes_prefix_free:
  assumes "distinct (symbols t)"
  shows "prefix_free (generate_codes (Some t) [] [])"
proof (cases t)
  case (Leaf c f)
  then show ?thesis by (simp add: prefix_free_def)
next
  case (Merged f l r)
  then have "generate_codes (Some t) [] [] = paths t"
    using assms generate_codes_Merged by metis
  then show ?thesis
    unfolding prefix_free_def using paths_prefix_free [OF assms] by auto
qed

lemma generate_codes_keys:
  assumes "distinct (symbols t)"
  shows "map fst (generate_codes (Some t) [] []) = symbols t"
  using map_fst_paths [of t]
  by (simp add: generate_codes_paths [OF assms] comp_def case_prod_beta)

section \<open>The decoding walk\<close>

lemma decode_loop_code:
  "q \<noteq> [] \<Longrightarrow> (c, q) \<in> set (paths s) \<Longrightarrow>
   decode_loop root (Some s) (q @ rest) acc = decode_loop root root rest (acc @ [c])"
proof (induction s arbitrary: q)
  case (Leaf c' f)
  then show ?case by simp
next
  case (Merged f l r)
  from Merged.prems(2) consider
    (lft) q' where "q = False # q'" "(c, q') \<in> set (paths l)"
    | (rgt) q' where "q = True # q'" "(c, q') \<in> set (paths r)"
    by auto
  then show ?case
  proof cases
    case lft
    show ?thesis
    proof (cases l)
      case (Leaf c' f')
      then show ?thesis using lft by simp
    next
      case (Merged f' l' r')
      then have "q' \<noteq> []" using lft(2) by auto
      then have "decode_loop root (Some l) (q' @ rest) acc = decode_loop root root rest (acc @ [c])"
        using lft(2) by (rule Merged.IH(1))
      then show ?thesis using lft(1) Merged by simp
    qed
  next
    case rgt
    show ?thesis
    proof (cases r)
      case (Leaf c' f')
      then show ?thesis using rgt by simp
    next
      case (Merged f' l' r')
      then have "q' \<noteq> []" using rgt(2) by auto
      then have "decode_loop root (Some r) (q' @ rest) acc = decode_loop root root rest (acc @ [c])"
        using rgt(2) by (rule Merged.IH(2))
      then show ?thesis using rgt(1) Merged by simp
    qed
  qed
qed

lemma decode_loop_stall:
  "(c, q) \<in> set (paths s) \<Longrightarrow> strict_prefix q' q \<Longrightarrow>
   decode_loop root (Some s) q' acc = Inr acc"
proof (induction s arbitrary: q q')
  case (Leaf c' f)
  then show ?case by simp
next
  case (Merged f l r)
  show ?case
  proof (cases q')
    case Nil
    then show ?thesis by simp
  next
    case (Cons b qt')
    from Merged.prems(1) consider
      (lft) qt where "q = False # qt" "(c, qt) \<in> set (paths l)"
      | (rgt) qt where "q = True # qt" "(c, qt) \<in> set (paths r)"
      by auto
    then show ?thesis
    proof cases
      case lft
      then have b: "b = False" and sp: "strict_prefix qt' qt"
        using Merged.prems(2) Cons by auto
      then have "qt \<noteq> []" by auto
      then obtain f' l' r' where l: "l = Merged f' l' r'"
        using lft(2) by (cases l) auto
      have "decode_loop root (Some l) qt' acc = Inr acc"
        using lft(2) sp by (rule Merged.IH(1))
      then show ?thesis using Cons b l by simp
    next
      case rgt
      then have b: "b = True" and sp: "strict_prefix qt' qt"
        using Merged.prems(2) Cons by auto
      then have "qt \<noteq> []" by auto
      then obtain f' l' r' where r: "r = Merged f' l' r'"
        using rgt(2) by (cases r) auto
      have "decode_loop root (Some r) qt' acc = Inr acc"
        using rgt(2) sp by (rule Merged.IH(2))
      then show ?thesis using Cons b r by simp
    qed
  qed
qed

lemma encode_text_Cons:
  "encode_text (x # xs) tbl = Inr e \<Longrightarrow>
   \<exists>q e'. map_of tbl x = Some q \<and> encode_text xs tbl = Inr e' \<and> e = q @ e'"
  by (auto split: option.splits sum.splits)

lemma decode_loop_prefix:
  assumes "root = Merged f l r"
  shows "encode_text t (paths root) = Inr e \<Longrightarrow> prefix bs e \<Longrightarrow>
     \<exists>t1. prefix t1 t \<and> decode_loop (Some root) (Some root) bs acc = Inr (acc @ t1)
          \<and> (t1 = t \<longleftrightarrow> bs = e)"
proof (induction t arbitrary: e bs acc)
  case Nil
  then show ?case by simp
next
  case (Cons x xs)
  obtain q e' where q: "map_of (paths root) x = Some q"
    and e': "encode_text xs (paths root) = Inr e'" and e: "e = q @ e'"
    using encode_text_Cons [OF Cons.prems(1)] by blast
  have mem: "(x, q) \<in> set (paths root)" using q by (rule map_of_SomeD)
  then have qne: "q \<noteq> []" unfolding assms by auto
  have "strict_prefix bs q \<or> (\<exists>bs'. bs = q @ bs' \<and> prefix bs' e')"
    using Cons.prems(2) unfolding e prefix_append by (auto simp: strict_prefix_def)
  then show ?case
  proof
    assume "strict_prefix bs q"
    then have "decode_loop (Some root) (Some root) bs acc = Inr acc"
      using mem decode_loop_stall by metis
    moreover have "bs \<noteq> e"
      using \<open>strict_prefix bs q\<close> unfolding e by (auto simp: strict_prefix_def)
    ultimately show ?thesis by (intro exI [of _ "[]"]) simp
  next
    assume "\<exists>bs'. bs = q @ bs' \<and> prefix bs' e'"
    then obtain bs' where bs: "bs = q @ bs'" and p: "prefix bs' e'" by blast
    obtain t1 where t1: "prefix t1 xs"
      "decode_loop (Some root) (Some root) bs' (acc @ [x]) = Inr ((acc @ [x]) @ t1)"
      "t1 = xs \<longleftrightarrow> bs' = e'"
      using Cons.IH [OF e' p, of "acc @ [x]"] by blast
    have "decode_loop (Some root) (Some root) bs acc
        = decode_loop (Some root) (Some root) bs' (acc @ [x])"
      unfolding bs using qne mem by (rule decode_loop_code)
    then show ?thesis
      using t1 by (intro exI [of _ "x # t1"]) (simp add: bs e)
  qed
qed

lemma decode_loop_encode_text:
  assumes "root = Merged f l r" and "encode_text t (paths root) = Inr e"
  shows "decode_loop (Some root) (Some root) e [] = Inr t"
  using decode_loop_prefix [OF assms, of e "[]"] by auto



section \<open>Bits and bytes\<close>

lemma int2_snoc: "int2 (bs @ [b]) = 2 * int2 bs + (if b then 1 else 0)"
  by (simp add: int2_def)

lemma int2_Nil: "int2 [] = 0"
  by (simp add: int2_def)

lemma int2_bound: "int2 bs < 2 ^ length bs"
  by (induction bs rule: rev_induct) (auto simp: int2_snoc int2_Nil)

lemma int2_zero_set: "int2 bs = 0 \<Longrightarrow> \<forall>b\<in>set bs. b = False"
  by (induction bs rule: rev_induct) (auto simp: int2_snoc split: if_splits)

lemma int2_zero: "int2 bs = 0 \<Longrightarrow> bs = replicate (length bs) False"
  using int2_zero_set [of bs] replicate_length_same [of bs False] by simp

lemma bin_digits_double:
  "0 < n \<Longrightarrow> bin_digits (2 * n + (if b then 1 else 0)) = bin_digits n @ [b]"
  by (subst bin_digits.simps) auto

lemma bin_digits_small: "bin_digits (if b then 1 else 0) = [b]"
  by (subst bin_digits.simps) auto

lemma rjust_bin_digits_int2:
  "bs \<noteq> [] \<Longrightarrow> rjust (length bs) False (bin_digits (int2 bs)) = bs"
proof (induction bs rule: rev_induct)
  case Nil
  then show ?case by simp
next
  case (snoc b bs)
  show ?case
  proof (cases "int2 bs = 0")
    case True
    then have "bs = replicate (length bs) False" by (rule int2_zero)
    then have "bs @ [b] = replicate (length bs) False @ [b]" by simp
    moreover have "rjust (length (bs @ [b])) False (bin_digits (int2 (bs @ [b])))
        = replicate (length bs) False @ [b]"
      using True bin_digits_small [of b] by (simp add: int2_snoc rjust_def)
    ultimately show ?thesis by simp
  next
    case False
    then have ne: "bs \<noteq> []" by (auto simp: int2_Nil)
    have len: "length (bin_digits (int2 bs)) \<le> length bs"
      using snoc.IH [OF ne] by (metis length_append length_replicate rjust_def le_add2)
    have "bin_digits (int2 (bs @ [b])) = bin_digits (int2 bs) @ [b]"
      using False by (simp add: int2_snoc bin_digits_double)
    then have "rjust (length (bs @ [b])) False (bin_digits (int2 (bs @ [b])))
        = rjust (length bs) False (bin_digits (int2 bs)) @ [b]"
      by (simp add: rjust_def)
    then show ?thesis using snoc.IH [OF ne] by simp
  qed
qed

lemma unat_byte: "n < 256 \<Longrightarrow> unat (word_of_nat n :: 8 word) = n"
  by (simp add: unat_of_nat)

lemma get_byte_array_Nil: "get_byte_array [] = []"
  by (simp add: get_byte_array_def)

lemma get_byte_array_chunk:
  assumes "length chunk = 8"
  shows "get_byte_array (chunk @ rest) = word_of_nat (int2 chunk) # get_byte_array rest"
proof -
  have n: "(length (chunk @ rest) + 7) div 8 = Suc ((length rest + 7) div 8)"
    using assms by simp
  have "[0 ..< Suc m] = 0 # map Suc [0 ..< m]" for m
    by (simp add: upt_conv_Cons map_Suc_upt del: upt_Suc)
  then show ?thesis
    unfolding get_byte_array_def n using assms by (simp add: Let_def comp_def)
qed

lemma bit_string_of_Cons:
  "bit_string_of (w # ws) = rjust 8 False (bin_digits (unat w)) @ bit_string_of ws"
  by (simp add: bit_string_of_def)

lemma bit_string_of_get_byte_array:
  "length bs = 8 * n \<Longrightarrow> bit_string_of (get_byte_array bs) = bs"
proof (induction n arbitrary: bs)
  case 0
  then show ?case by (simp add: get_byte_array_Nil bit_string_of_def)
next
  case (Suc n)
  define chunk where "chunk = take 8 bs"
  define rest where "rest = drop 8 bs"
  have bs: "bs = chunk @ rest" by (simp add: chunk_def rest_def)
  have lc: "length chunk = 8" and lr: "length rest = 8 * n"
    using Suc.prems by (simp_all add: chunk_def rest_def)
  have "int2 chunk < 256" using int2_bound [of chunk] lc by simp
  then have "unat (word_of_nat (int2 chunk) :: 8 word) = int2 chunk" by (rule unat_byte)
  moreover have "rjust 8 False (bin_digits (int2 chunk)) = chunk"
    using rjust_bin_digits_int2 [of chunk] lc by fastforce
  ultimately show ?case
    unfolding bs using Suc.IH [OF lr] lc
    by (simp add: get_byte_array_chunk bit_string_of_Cons)
qed

lemma padding_arith:
  fixes n :: nat
  shows "(8 - n mod 8) mod 8 \<le> 7" and "(n + (8 - n mod 8) mod 8) mod 8 = 0"
proof -
  define m where "m = n mod 8"
  have m: "m < 8" by (simp add: m_def)
  have p: "(8 - m) mod 8 = (if m = 0 then 0 else 8 - m)" using m by auto
  show "(8 - n mod 8) mod 8 \<le> 7" using m p by (simp add: m_def [symmetric])
  have "(n + (8 - m) mod 8) mod 8 = (m + (8 - m) mod 8) mod 8"
    unfolding m_def by (simp add: mod_add_left_eq)
  also have "\<dots> = 0" using m p by auto
  finally show "(n + (8 - n mod 8) mod 8) mod 8 = 0" by (simp add: m_def)
qed

lemma pad_encoded_text_snd: "snd (pad_encoded_text e) = (8 - length e mod 8) mod 8"
  by (simp add: pad_encoded_text_def Let_def)

lemma pad_encoded_text_fst:
  "fst (pad_encoded_text e) = e @ replicate (snd (pad_encoded_text e)) False"
  by (simp add: pad_encoded_text_def Let_def)

lemma pad_encoded_text_length:
  "\<exists>n. length (fst (pad_encoded_text e)) = 8 * n"
proof -
  have "(length e + snd (pad_encoded_text e)) mod 8 = 0"
    unfolding pad_encoded_text_snd by (rule padding_arith)
  then have "length (fst (pad_encoded_text e)) mod 8 = 0"
    by (subst pad_encoded_text_fst) simp
  then show ?thesis by auto
qed

lemma remove_padding_append:
  "remove_padding (e @ replicate p False) (int p) = e"
  by (simp add: remove_padding_def)

lemma length_bin_digits: "0 < k \<Longrightarrow> n < 2 ^ k \<Longrightarrow> length (bin_digits n) \<le> k"
proof (induction k arbitrary: n)
  case 0
  then show ?case by simp
next
  case (Suc k)
  show ?case
  proof (cases "n < 2")
    case True
    then show ?thesis by (subst bin_digits.simps) simp
  next
    case False
    then have k: "0 < k" using Suc.prems by (cases k) auto
    have "n div 2 < 2 ^ k" using Suc.prems by auto
    then have "length (bin_digits (n div 2)) \<le> k" using k Suc.IH by blast
    then show ?thesis using False by (subst bin_digits.simps) simp
  qed
qed

lemma length_byte_bits: "length (rjust 8 False (bin_digits (unat (w :: 8 word)))) = 8"
proof -
  have "unat w < 2 ^ 8" using unsigned_less [of w] by simp
  then have "length (bin_digits (unat w)) \<le> 8"
    by (intro length_bin_digits) simp_all
  then show ?thesis by (simp add: rjust_def)
qed

lemma length_bit_string_of: "length (bit_string_of ws) = 8 * length ws"
  by (induction ws) (simp_all add: bit_string_of_Cons length_byte_bits, simp add: bit_string_of_def)

lemma bit_string_of_append:
  "bit_string_of (xs @ ys) = bit_string_of xs @ bit_string_of ys"
  by (simp add: bit_string_of_def)

lemma bit_string_of_butlast:
  "bit_string_of (butlast ws) = take (8 * (length ws - 1)) (bit_string_of ws)"
proof (cases ws rule: rev_cases)
  case Nil
  then show ?thesis by (simp add: bit_string_of_def)
next
  case (snoc ys y)
  then show ?thesis
    by (simp add: bit_string_of_append length_bit_string_of)
qed

lemma length_get_byte_array: "length (get_byte_array bs) = (length bs + 7) div 8"
  by (simp add: get_byte_array_def)

lemma unpack_pack:
  "bit_string_of (get_byte_array (fst (pad_encoded_text e)))
     = e @ replicate (snd (pad_encoded_text e)) False"
proof -
  obtain n where "length (fst (pad_encoded_text e)) = 8 * n"
    using pad_encoded_text_length by blast
  then have "bit_string_of (get_byte_array (fst (pad_encoded_text e))) = fst (pad_encoded_text e)"
    by (rule bit_string_of_get_byte_array)
  then show ?thesis using pad_encoded_text_fst [of e] by simp
qed

section \<open>compress\_file, step by step\<close>

lemma encode_text_total:
  "set t \<subseteq> fst ` set tbl \<Longrightarrow> \<exists>e. encode_text t tbl = Inr e"
proof (induction t)
  case Nil
  then show ?case by simp
next
  case (Cons x xs)
  then obtain e where "encode_text xs tbl = Inr e" by auto
  moreover obtain q where "map_of tbl x = Some q"
    using Cons.prems by (metis list.set_intros(1) subsetD weak_map_of_SomeI map_of_eq_None_iff not_Some_eq)
  ultimately show ?case by simp
qed

lemma encode_text_length:
  "encode_text t tbl = Inr e \<Longrightarrow> \<forall>(c, q) \<in> set tbl. q \<noteq> [] \<Longrightarrow> length t \<le> length e"
proof (induction t arbitrary: e)
  case Nil
  then show ?case by simp
next
  case (Cons x xs)
  obtain q e' where q: "map_of tbl x = Some q"
    and e': "encode_text xs tbl = Inr e'" and e: "e = q @ e'"
    using encode_text_Cons [OF Cons.prems(1)] by blast
  have "q \<noteq> []" using map_of_SomeD [OF q] Cons.prems(2) by auto
  then have "1 \<le> length q" by (cases q) auto
  then show ?case using Cons.IH [OF e' Cons.prems(2)] by (simp add: e)
qed

lemma encode_text_replicate:
  "encode_text (replicate n c) [(c, [False])] = Inr (replicate n False)"
  by (induction n) simp_all

lemma compress_file_steps:
  assumes "text \<noteq> []"
  shows "\<exists>tree e. build_huffman_tree (build_frequency_table text) = Inr (Some tree)
           \<and> distinct (symbols tree) \<and> set (symbols tree) = set text
           \<and> encode_text text (generate_codes (Some tree) [] []) = Inr e
           \<and> compress_file text =
               Inr \<lparr>header_freq = build_frequency_table text,
                    header_padding = int (snd (pad_encoded_text e)),
                    payload = get_byte_array (fst (pad_encoded_text e))\<rparr>"
proof -
  let ?ft = "build_frequency_table text"
  have keys: "map fst ?ft = first_occurrences text" by (rule build_frequency_table_keys)
  have "?ft \<noteq> []" using assms keys by (metis list.map_disc_iff set_empty set_first_occurrences)
  then obtain tree where tree: "build_huffman_tree ?ft = Inr (Some tree)"
    and m: "mset (symbols tree) = mset (map fst ?ft)"
    using build_huffman_tree_nonempty by blast
  have d: "distinct (symbols tree)"
    using m keys by (metis distinct_first_occurrences mset_eq_imp_distinct_iff)
  have s: "set (symbols tree) = set text"
    using mset_eq_setD [OF m] keys by simp
  have "set text \<subseteq> fst ` set (generate_codes (Some tree) [] [])"
    using generate_codes_keys [OF d] s by (metis set_map subset_refl)
  then obtain e where e: "encode_text text (generate_codes (Some tree) [] []) = Inr e"
    using encode_text_total by blast
  have "compress_file text =
               Inr \<lparr>header_freq = build_frequency_table text,
                    header_padding = int (snd (pad_encoded_text e)),
                    payload = get_byte_array (fst (pad_encoded_text e))\<rparr>"
    using assms tree e by (simp add: compress_file_def Let_def case_prod_beta)
  then show ?thesis using tree d s e by blast
qed

text \<open>
  Compressing a non-empty text always produces a file: neither \<open>heappop\<close> nor the lookup
  in the code table raises.
\<close>

lemma compress_file_total: "text \<noteq> [] \<Longrightarrow> \<exists>file. compress_file text = Inr file"
  using compress_file_steps [of "text"] by auto

text \<open>The padding written to the header lies in \<open>[0,7]\<close>.\<close>

lemma compress_file_padding:
  assumes "compress_file text = Inr file"
  shows "0 \<le> header_padding file \<and> header_padding file \<le> 7"
proof -
  have "text \<noteq> []" using assms by (auto simp: compress_file_def)
  then obtain e where "header_padding file = int (snd (pad_encoded_text e))"
    using compress_file_steps [of "text"] assms by auto
  moreover have "snd (pad_encoded_text e) \<le> 7"
    unfolding pad_encoded_text_snd by (rule padding_arith)
  ultimately show ?thesis by simp
qed

text \<open>
  The frequency table in the header lists the symbols of the text in order of first
  occurrence, each with its number of occurrences.
\<close>

lemma compress_file_header:
  assumes "compress_file text = Inr file"
  shows "header_freq file = map (\<lambda>c. (c, int (count_list text c))) (first_occurrences text)"
proof -
  have "text \<noteq> []" using assms by (auto simp: compress_file_def)
  then have "header_freq file = build_frequency_table text"
    using compress_file_steps [of "text"] assms by auto
  then show ?thesis by (simp add: build_frequency_table_eq)
qed

section \<open>A payload cut by one byte\<close>

lemma remove_padding_take:
  "remove_padding bs (int p) = take (length bs - p) bs"
proof -
  have "nat (int (length bs) - int p) = length bs - p" by linarith
  then show ?thesis by (simp add: remove_padding_def)
qed

lemma truncated_bits:
  "remove_padding (bit_string_of (butlast (get_byte_array (fst (pad_encoded_text e)))))
      (int (snd (pad_encoded_text e))) = take (length e - 8) e"
proof -
  define p where "p = snd (pad_encoded_text e)"
  define padded where "padded = fst (pad_encoded_text e)"
  have padded: "padded = e @ replicate p False"
    unfolding padded_def p_def by (rule pad_encoded_text_fst)
  obtain n where n: "length padded = 8 * n"
    unfolding padded_def using pad_encoded_text_length by blast
  have len: "length (get_byte_array padded) = n"
    by (simp add: length_get_byte_array n)
  have le: "length e + p = 8 * n" using n padded by simp
  have "bit_string_of (butlast (get_byte_array padded)) = take (8 * (n - 1)) padded"
    using bit_string_of_butlast [of "get_byte_array padded"] len
      bit_string_of_get_byte_array [OF n] by simp
  then have "remove_padding (bit_string_of (butlast (get_byte_array padded))) (int p)
      = take (length (take (8 * (n - 1)) padded) - p) (take (8 * (n - 1)) padded)"
    by (simp only: remove_padding_take)
  also have "\<dots> = take (8 * (n - 1) - p) padded"
    using n by (simp add: min_def)
  also have "\<dots> = take (length e - 8) padded"
    using le by (intro arg_cong2 [of _ _ _ _ take]) auto
  also have "\<dots> = take (length e - 8) e"
    by (simp add: padded)
  finally show ?thesis by (simp add: padded_def p_def)
qed

lemma tree_two_symbols:
  "2 \<le> card (set (symbols tree)) \<Longrightarrow> \<exists>f l r. tree = Merged f l r"
  by (cases tree) auto

text \<open>
  A text with at least two distinct symbols survives \<open>compress_file\<close> followed by
  \<open>decompress_file\<close>.
\<close>

lemma roundtrip_two_symbols:
  assumes "2 \<le> card (set text)"
  shows "\<exists>file. compress_file text = Inr file \<and> decompress_file file = Inr text"
proof -
  have ne: "text \<noteq> []" using assms by auto
  obtain tree e where tree: "build_huffman_tree (build_frequency_table text) = Inr (Some tree)"
    and d: "distinct (symbols tree)" and s: "set (symbols tree) = set text"
    and e: "encode_text text (generate_codes (Some tree) [] []) = Inr e"
    and c: "compress_file text =
               Inr \<lparr>header_freq = build_frequency_table text,
                    header_padding = int (snd (pad_encoded_text e)),
                    payload = get_byte_array (fst (pad_encoded_text e))\<rparr>"
    using compress_file_steps [OF ne] by blast
  obtain f l r where m: "tree = Merged f l r"
    using tree_two_symbols [of tree] assms s by auto
  have codes: "generate_codes (Some tree) [] [] = paths tree"
    using d unfolding m by (rule generate_codes_Merged)
  have e': "encode_text text (paths tree) = Inr e" using e codes by simp
  have "length text \<le> length e"
    using e' by (rule encode_text_length) (auto simp: m)
  then have "e \<noteq> []" using ne by auto
  then have "fst (pad_encoded_text e) \<noteq> []" by (simp add: pad_encoded_text_fst)
  then have "0 < length (fst (pad_encoded_text e))" by simp
  then have "0 < (length (fst (pad_encoded_text e)) + 7) div 8" by arith
  then have p: "get_byte_array (fst (pad_encoded_text e)) \<noteq> []"
    using length_get_byte_array [of "fst (pad_encoded_text e)"] by auto
  have bits: "remove_padding (bit_string_of (get_byte_array (fst (pad_encoded_text e))))
      (int (snd (pad_encoded_text e))) = e"
    by (simp add: unpack_pack remove_padding_append)
  have "decode_loop (Some tree) (Some tree) e [] = Inr text"
    using m e' by (rule decode_loop_encode_text)
  then have "decompress_file \<lparr>header_freq = build_frequency_table text,
                    header_padding = int (snd (pad_encoded_text e)),
                    payload = get_byte_array (fst (pad_encoded_text e))\<rparr> = Inr text"
    using p tree bits by (simp add: decompress_file_def Let_def)
  then show ?thesis using c by simp
qed

section \<open>The bit packer\<close>

text \<open>
  Claim C4. For every bit string \<open>b\<close>: padding \<open>b\<close> with \<open>pad_encoded_text\<close>, packing it
  with \<open>get_byte_array\<close>, expanding every byte to eight bits as \<open>decompress_file\<close> does and
  cutting the recorded padding off gives \<open>b\<close> back; and the recorded padding is at most 7
  (it is a natural number, so it is at least 0).
\<close>

theorem bit_packer_roundtrip:
  "remove_padding (bit_string_of (get_byte_array (fst (pad_encoded_text b))))
      (int (snd (pad_encoded_text b))) = b
   \<and> snd (pad_encoded_text b) \<le> 7"
proof -
  obtain n where "length (fst (pad_encoded_text b)) = 8 * n"
    using pad_encoded_text_length by blast
  then have "bit_string_of (get_byte_array (fst (pad_encoded_text b))) = fst (pad_encoded_text b)"
    by (rule bit_string_of_get_byte_array)
  then have "remove_padding (bit_string_of (get_byte_array (fst (pad_encoded_text b))))
      (int (snd (pad_encoded_text b))) = b"
    using pad_encoded_text_fst [of b] remove_padding_append by metis
  moreover have "snd (pad_encoded_text b) \<le> 7"
    unfolding pad_encoded_text_snd by (rule padding_arith)
  ultimately show ?thesis by simp
qed

text \<open>
  Claim C5. The padding count returned by \<open>pad_encoded_text\<close> for an encoded bit string
  \<open>e\<close> is at most 7 (and at least 0, being a natural number), the length of \<open>e\<close> plus the
  padding is a multiple of 8, the padding equals \<open>(8 - length e mod 8) mod 8\<close>, and the
  padded string is \<open>e\<close> followed by that many zero bits.
\<close>

theorem padding_bits_bound:
  "snd (pad_encoded_text e) \<le> 7
   \<and> (length e + snd (pad_encoded_text e)) mod 8 = 0
   \<and> snd (pad_encoded_text e) = (8 - length e mod 8) mod 8
   \<and> fst (pad_encoded_text e) = e @ replicate (snd (pad_encoded_text e)) False"
  using padding_arith [of "length e"] pad_encoded_text_fst [of e]
  by (simp add: pad_encoded_text_snd)

section \<open>Empty input\<close>

text \<open>
  Claim C7. Compressing the empty text returns with the warning "Input file is empty!"
  before the frequency table is built and before any output is opened: the result is the
  error value \<open>InputFileEmpty\<close>, and no container is produced. The warning is given for
  the empty text only: every other text gets through the pipeline.
\<close>

theorem compress_file_empty_text:
  "compress_file ([] :: 'a list) = Inl InputFileEmpty
   \<and> (compress_file (text :: 'a list) = Inl InputFileEmpty \<longleftrightarrow> text = [])"
proof -
  have empty: "compress_file ([] :: 'a list) = Inl InputFileEmpty"
    by (simp add: compress_file_def)
  have "compress_file text \<noteq> Inl InputFileEmpty" if "text \<noteq> []"
    using compress_file_total [OF that] by auto
  then show ?thesis using empty by auto
qed

section \<open>Properties of the code table\<close>

text \<open>
  Claim C6. For every non-empty frequency table (a dict, so its keys are distinct),
  \<open>build_huffman_tree\<close> returns a tree, and the code table that \<open>generate_codes\<close> derives
  from it is prefix-free (the code of a symbol is not a prefix, proper or not, of the code
  of another symbol) and has exactly the symbols of the frequency table as its keys, each
  once.
\<close>

theorem code_table_prefix_free:
  assumes "freq_table \<noteq> []" and "distinct (map fst freq_table)"
  shows "\<exists>tree. build_huffman_tree freq_table = Inr (Some tree)
           \<and> prefix_free (generate_codes (Some tree) [] [])
           \<and> set (map fst (generate_codes (Some tree) [] [])) = set (map fst freq_table)
           \<and> distinct (map fst (generate_codes (Some tree) [] []))"
proof -
  obtain tree where t: "build_huffman_tree freq_table = Inr (Some tree)"
    and m: "mset (symbols tree) = mset (map fst freq_table)"
    using build_huffman_tree_nonempty [OF assms(1)] by blast
  have d: "distinct (symbols tree)"
    using m assms(2) by (metis mset_eq_imp_distinct_iff)
  have s: "set (symbols tree) = set (map fst freq_table)"
    using m by (rule mset_eq_setD)
  have k: "map fst (generate_codes (Some tree) [] []) = symbols tree"
    by (rule generate_codes_keys [OF d])
  have "prefix_free (generate_codes (Some tree) [] [])"
    by (rule generate_codes_prefix_free [OF d])
  moreover have "set (map fst (generate_codes (Some tree) [] [])) = set (map fst freq_table)"
    unfolding k by (rule s)
  moreover have "distinct (map fst (generate_codes (Some tree) [] []))"
    unfolding k by (rule d)
  ultimately show ?thesis using t by blast
qed

theorem code_table_prefix_free_witness:
  "[(CHR ''a'', 3), (CHR ''b'', 2), (CHR ''c'', 1 :: int)] \<noteq> []
   \<and> distinct (map fst [(CHR ''a'', 3), (CHR ''b'', 2), (CHR ''c'', 1 :: int)])
   \<and> (\<exists>tree. build_huffman_tree [(CHR ''a'', 3), (CHR ''b'', 2), (CHR ''c'', 1)] = Inr (Some tree)
           \<and> prefix_free (generate_codes (Some tree) [] [])
           \<and> set (map fst (generate_codes (Some tree) [] []))
               = set (map fst [(CHR ''a'', 3), (CHR ''b'', 2), (CHR ''c'', 1 :: int)])
           \<and> distinct (map fst (generate_codes (Some tree) [] [])))"
  using code_table_prefix_free [of "[(CHR ''a'', 3), (CHR ''b'', 2), (CHR ''c'', 1)]"]
  by simp

section \<open>Single-symbol texts\<close>

text \<open>
  Claim C3. For a text that repeats one symbol \<open>c\<close>, \<open>n > 0\<close> times: the tree is the
  single leaf of \<open>c\<close>, the code table generated from it gives \<open>c\<close> the code "0" and
  nothing else, and the payload of the compressed file, expanded to bits and with the
  recorded padding removed, is a run of \<open>n\<close> zero bits.
\<close>

theorem single_symbol_code_and_payload:
  assumes "0 < n"
  shows "build_huffman_tree (build_frequency_table (replicate n c)) = Inr (Some (Leaf c (int n)))
     \<and> generate_codes (Some (Leaf c (int n))) [] [] = [(c, [False])]
     \<and> (\<exists>file. compress_file (replicate n c) = Inr file
           \<and> remove_padding (bit_string_of (payload file)) (header_padding file)
               = replicate n False)"
proof -
  let ?e = "replicate n False"
  have ft: "build_frequency_table (replicate n c) = [(c, int n)]"
    using assms by (rule build_frequency_table_replicate)
  have tree: "build_huffman_tree (build_frequency_table (replicate n c)) = Inr (Some (Leaf c (int n)))"
    by (simp add: ft build_huffman_tree_single)
  have codes: "generate_codes (Some (Leaf c (int n))) [] [] = [(c, [False])]"
    by simp
  have "compress_file (replicate n c) =
      Inr \<lparr>header_freq = [(c, int n)],
           header_padding = int (snd (pad_encoded_text ?e)),
           payload = get_byte_array (fst (pad_encoded_text ?e))\<rparr>"
    using assms by (simp add: compress_file_def ft build_huffman_tree_single
        encode_text_replicate Let_def case_prod_beta)
  moreover have "remove_padding (bit_string_of (get_byte_array (fst (pad_encoded_text ?e))))
      (int (snd (pad_encoded_text ?e))) = ?e"
    by (simp add: unpack_pack remove_padding_append)
  ultimately show ?thesis using tree codes by simp
qed

theorem single_symbol_code_and_payload_witness:
  "0 < (3::nat)
   \<and> build_huffman_tree (build_frequency_table (replicate 3 (CHR ''a'')))
       = Inr (Some (Leaf (CHR ''a'') (int 3)))
   \<and> generate_codes (Some (Leaf (CHR ''a'') (int 3))) [] [] = [(CHR ''a'', [False])]
   \<and> (\<exists>file. compress_file (replicate 3 (CHR ''a'')) = Inr file
           \<and> remove_padding (bit_string_of (payload file)) (header_padding file)
               = replicate 3 False)"
  using single_symbol_code_and_payload [of 3 "CHR ''a''"] by simp

text \<open>
  Claim C8. For a file whose header frequency table has exactly one symbol and whose bit
  string is not empty after the padding is removed, the tree rebuilt by
  \<open>build_huffman_tree\<close> is a single leaf; both children of a leaf are \<open>None\<close>, so the
  first step of the walk reads \<open>.char\<close> of \<open>None\<close>, and \<open>decompress_file\<close> ends with an
  \<open>AttributeError\<close> instead of a recovered text.
\<close>

theorem single_symbol_container_crashes:
  assumes "header_freq file = [(c, f)]"
    and "remove_padding (bit_string_of (payload file)) (header_padding file) \<noteq> []"
  shows "build_huffman_tree (header_freq file) = Inr (Some (Leaf c f))
     \<and> left (Leaf c f) = None \<and> right (Leaf c f) = None
     \<and> decompress_file file = Inl AttributeError"
proof -
  have tree: "build_huffman_tree (header_freq file) = Inr (Some (Leaf c f))"
    by (simp add: assms(1) build_huffman_tree_single)
  have "payload file \<noteq> []"
    using assms(2) by (auto simp: bit_string_of_def remove_padding_def)
  moreover obtain b bs where
    "remove_padding (bit_string_of (payload file)) (header_padding file) = b # bs"
    using assms(2) by (cases "remove_padding (bit_string_of (payload file)) (header_padding file)") auto
  ultimately have "decompress_file file = Inl AttributeError"
    using tree by (simp add: decompress_file_def Let_def)
  then show ?thesis using tree by simp
qed

theorem single_symbol_container_crashes_witness:
  "header_freq \<lparr>header_freq = [(CHR ''a'', 3)], header_padding = 5, payload = [0]\<rparr>
     = [(CHR ''a'', 3)]
   \<and> remove_padding (bit_string_of (payload \<lparr>header_freq = [(CHR ''a'', 3)], header_padding = 5, payload = [0]\<rparr>))
        (header_padding \<lparr>header_freq = [(CHR ''a'', 3)], header_padding = 5, payload = [0]\<rparr>) \<noteq> []
   \<and> build_huffman_tree (header_freq \<lparr>header_freq = [(CHR ''a'', 3)], header_padding = 5, payload = [0]\<rparr>)
       = Inr (Some (Leaf (CHR ''a'') 3))
   \<and> decompress_file \<lparr>header_freq = [(CHR ''a'', 3)], header_padding = 5, payload = [0]\<rparr>
       = Inl AttributeError"
proof -
  let ?file = "\<lparr>header_freq = [(CHR ''a'', 3)], header_padding = 5, payload = [0]\<rparr>"
  have h1: "header_freq ?file = [(CHR ''a'', 3)]" by simp
  have "remove_padding (bit_string_of [0 :: 8 word]) 5 = [False, False, False]" by code_simp
  then have h2: "remove_padding (bit_string_of (payload ?file)) (header_padding ?file) \<noteq> []"
    by simp
  show ?thesis using single_symbol_container_crashes [OF h1 h2] h1 h2 by simp
qed

text \<open>
  Claim C1, the round trip \<open>decompress(compress(t)) = t\<close> for every non-empty text, at the
  text "aaa": \<open>compress_file\<close> writes the frequency table \<open>{a: 3}\<close>, padding 5 and the one
  byte 0, and \<open>decompress_file\<close> on that file ends with an \<open>AttributeError\<close>: no text is
  recovered. (\<open>generate_codes\<close> gives the only leaf of a single-node tree the code "0";
  the decoding walk has no such case. Lemma \<open>roundtrip_two_symbols\<close> is the round trip
  for the texts with two or more distinct symbols.)
\<close>

theorem roundtrip_fails_single_symbol:
  "compress_file ''aaa'' =
     Inr \<lparr>header_freq = [(CHR ''a'', 3)], header_padding = 5, payload = [0]\<rparr>
   \<and> decompress_file \<lparr>header_freq = [(CHR ''a'', 3)], header_padding = 5, payload = [0]\<rparr>
       = Inl AttributeError"
  by code_simp

section \<open>Damaged files\<close>

text \<open>
  Claim C2 as stated (a payload cut by one byte is reported as corrupt) fails:
  \<open>decompress_file\<close> has no check of the walk position after the loop. The file written
  for "abcabcabc" has the two payload bytes 115 and 156; with the second byte cut off,
  seven bits are left after the padding is removed, the walk ends one step below the
  root, and "abca" is written as if nothing had happened.
\<close>

theorem truncated_payload_counterexample:
  "compress_file ''abcabcabc'' =
     Inr \<lparr>header_freq = [(CHR ''a'', 3), (CHR ''b'', 3), (CHR ''c'', 3)],
          header_padding = 1, payload = [115, 156]\<rparr>
   \<and> decompress_file \<lparr>header_freq = [(CHR ''a'', 3), (CHR ''b'', 3), (CHR ''c'', 3)],
          header_padding = 1, payload = [115]\<rparr> = Inr ''abca''"
  by code_simp

text \<open>
  Claim C2, amended. For every file written by \<open>compress_file\<close> for a text with at least
  two distinct symbols, \<open>decompress_file\<close> on the file with the last payload byte cut off
  reports no corruption: when the payload had a single byte it returns with the warning
  "Compressed file is empty!", and otherwise it completes and writes a proper prefix of
  the text.
\<close>

theorem truncated_payload_partial_text:
  assumes "compress_file text = Inr file" and "2 \<le> card (set text)"
  shows "(length (payload file) = 1 \<longrightarrow>
            decompress_file (file\<lparr>payload := butlast (payload file)\<rparr>) = Inl CompressedFileEmpty)
       \<and> (length (payload file) \<noteq> 1 \<longrightarrow>
            (\<exists>partial. strict_prefix partial text
               \<and> decompress_file (file\<lparr>payload := butlast (payload file)\<rparr>) = Inr partial))"
proof -
  have ne: "text \<noteq> []" using assms(2) by auto
  obtain tree e where tree: "build_huffman_tree (build_frequency_table text) = Inr (Some tree)"
    and d: "distinct (symbols tree)" and s: "set (symbols tree) = set text"
    and e: "encode_text text (generate_codes (Some tree) [] []) = Inr e"
    and c: "compress_file text =
               Inr \<lparr>header_freq = build_frequency_table text,
                    header_padding = int (snd (pad_encoded_text e)),
                    payload = get_byte_array (fst (pad_encoded_text e))\<rparr>"
    using compress_file_steps [OF ne] by blast
  have file_eq: "file = \<lparr>header_freq = build_frequency_table text,
                    header_padding = int (snd (pad_encoded_text e)),
                    payload = get_byte_array (fst (pad_encoded_text e))\<rparr>"
    using assms(1) c by simp
  obtain f l r where m: "tree = Merged f l r"
    using tree_two_symbols [of tree] assms(2) s by auto
  have codes: "generate_codes (Some tree) [] [] = paths tree"
    using d unfolding m by (rule generate_codes_Merged)
  have e': "encode_text text (paths tree) = Inr e" using e codes by simp
  have "length text \<le> length e"
    using e' by (rule encode_text_length) (auto simp: m)
  then have ene: "e \<noteq> []" using ne by auto
  let ?cut = "file\<lparr>payload := butlast (payload file)\<rparr>"
  let ?bits = "take (length e - 8) e"
  have bits: "remove_padding (bit_string_of (payload ?cut)) (header_padding ?cut) = ?bits"
    by (simp add: file_eq truncated_bits)
  have one: "decompress_file ?cut = Inl CompressedFileEmpty" if "length (payload file) = 1"
  proof -
    have "butlast (payload file) = []" using that by (cases "payload file") auto
    then show ?thesis by (simp add: decompress_file_def)
  qed
  have more: "\<exists>partial. strict_prefix partial text \<and> decompress_file ?cut = Inr partial"
    if "length (payload file) \<noteq> 1"
  proof -
    have "0 < length (fst (pad_encoded_text e))" using ene by (simp add: pad_encoded_text_fst)
    then have "0 < (length (fst (pad_encoded_text e)) + 7) div 8" by arith
    then have "0 < length (payload file)" by (simp add: file_eq length_get_byte_array)
    then have "2 \<le> length (payload file)" using that by arith
    then have p: "payload ?cut \<noteq> []" by (cases "payload file" rule: rev_cases) auto
    have "prefix ?bits e" by (rule take_is_prefix)
    then obtain partial where pre: "prefix partial text"
      and dec: "decode_loop (Some tree) (Some tree) ?bits [] = Inr ([] @ partial)"
      and iff: "partial = text \<longleftrightarrow> ?bits = e"
      using decode_loop_prefix [OF m e', of ?bits "[]"] by blast
    have "length ?bits < length e" using ene by (cases e) auto
    then have "?bits \<noteq> e" by auto
    then have "strict_prefix partial text" using pre iff by (simp add: strict_prefix_def)
    moreover have "decompress_file ?cut = Inr partial"
      using p tree bits dec by (simp add: decompress_file_def Let_def file_eq)
    ultimately show ?thesis by blast
  qed
  show ?thesis using one more by blast
qed

theorem truncated_payload_partial_text_witness:
  "compress_file ''abcabcabc'' =
     Inr \<lparr>header_freq = [(CHR ''a'', 3), (CHR ''b'', 3), (CHR ''c'', 3)],
          header_padding = 1, payload = [115, 156]\<rparr>
   \<and> 2 \<le> card (set ''abcabcabc'')
   \<and> length [115, 156 :: 8 word] \<noteq> 1
   \<and> (\<exists>partial. strict_prefix partial ''abcabcabc''
         \<and> decompress_file \<lparr>header_freq = [(CHR ''a'', 3), (CHR ''b'', 3), (CHR ''c'', 3)],
              header_padding = 1, payload = [115]\<rparr> = Inr partial)"
proof -
  have h1: "compress_file ''abcabcabc'' =
     Inr \<lparr>header_freq = [(CHR ''a'', 3), (CHR ''b'', 3), (CHR ''c'', 3)],
          header_padding = 1, payload = [115, 156]\<rparr>"
    by code_simp
  have h2: "2 \<le> card (set ''abcabcabc'')" by code_simp
  show ?thesis using truncated_payload_partial_text [OF h1 h2] h1 h2 by simp
qed




end
